theory Spec2Isabelle
  imports Complex_Main "HOL-Library.Multiset"
begin

section \<open>Errors and arithmetic of the notebook\<close>

text \<open>
  The notebook \<^verbatim>\<open>07_Machine_Learning.ipynb\<close> defines six small Python functions.
  Python's unbounded \<^verbatim>\<open>int\<close> is \<^typ>\<open>int\<close>. Every exception the code can raise is
  a value \<open>Inl e\<close>.
\<close>

datatype error = ZeroDivisionError | IndexError

type_synonym 'a result = "error + 'a"

subsection \<open>Floats\<close>

text \<open>
  A Python \<^verbatim>\<open>float\<close> is an IEEE double: a number with a significand of 53 bits. It is
  modelled by the real number it stands for, and every float operation returns the
  double nearest to the exact result, a tie going to the even significand. The range of
  the exponent is not modelled: there is no overflow, no underflow and no infinity, which
  in the notebook's functions need magnitudes beyond about \<open>1e308\<close> or below \<open>1e-308\<close>.

  \<open>round_half_even y\<close> is the integer nearest to \<open>y\<close>, the even one at a tie.
\<close>

definition round_half_even :: "real \<Rightarrow> int" where
  "round_half_even y =
     (let f = \<lfloor>y\<rfloor>; d = y - of_int f
      in if d < 1 / 2 then f
         else if 1 / 2 < d then f + 1
         else if even f then f else f + 1)"

text \<open>
  \<open>round_pos x\<close> rounds \<open>x > 0\<close> to 53 significant bits: \<open>x\<close> is scaled by a power of two
  into \<open>[2^52, 2^53)\<close>, rounded to an integer there and scaled back.
\<close>

function round_pos :: "real \<Rightarrow> real" where
  "round_pos x =
     (if x \<le> 0 then 0
      else if 2 ^ 53 \<le> x then 2 * round_pos (x / 2)
      else if x < 2 ^ 52 then round_pos (2 * x) / 2
      else of_int (round_half_even x))"
  by pat_completeness auto
termination
proof (relation "measure (\<lambda>x. if 2 ^ 53 \<le> x then nat \<lfloor>x\<rfloor> else nat \<lceil>2 ^ 52 / x\<rceil>)")
  show "wf (measure (\<lambda>x::real. if 2 ^ 53 \<le> x then nat \<lfloor>x\<rfloor> else nat \<lceil>2 ^ 52 / x\<rceil>))"
    by simp
next
  fix x :: real
  assume a: "\<not> x \<le> 0" "2 ^ 53 \<le> x"
  have h: "2 ^ 52 \<le> x / 2" using a by simp
  have fl: "\<lfloor>x / 2\<rfloor> < \<lfloor>x\<rfloor>"
  proof -
    have "x / 2 \<le> x - 1" using a by simp
    then have "\<lfloor>x / 2\<rfloor> \<le> \<lfloor>x - 1\<rfloor>" by (rule floor_mono)
    then show ?thesis by simp
  qed
  have pos: "0 < \<lfloor>x\<rfloor>" using a by simp
  have c1: "\<lceil>2 ^ 52 / (x / 2)\<rceil> \<le> 1"
  proof -
    have "2 ^ 52 / (x / 2) \<le> 1" using h a by simp
    then show ?thesis by (simp add: ceiling_le_iff)
  qed
  have big: "(2::int) \<le> \<lfloor>x\<rfloor>" using a by (simp add: le_floor_iff)
  show "(x / 2, x) \<in> measure (\<lambda>x. if 2 ^ 53 \<le> x then nat \<lfloor>x\<rfloor> else nat \<lceil>2 ^ 52 / x\<rceil>)"
  proof (cases "2 ^ 53 \<le> x / 2")
    case True
    have "nat \<lfloor>x / 2\<rfloor> < nat \<lfloor>x\<rfloor>" using fl pos by linarith
    then show ?thesis unfolding in_measure using True a(2) by (simp only: if_True)
  next
    case False
    have "nat \<lceil>2 ^ 52 / (x / 2)\<rceil> < nat \<lfloor>x\<rfloor>" using c1 big by linarith
    then show ?thesis unfolding in_measure using False a(2) by (simp only: if_True if_False)
  qed
next
  fix x :: real
  assume a: "\<not> x \<le> 0" "\<not> 2 ^ 53 \<le> x" "x < 2 ^ 52"
  have y: "1 < 2 ^ 52 / x" using a by simp
  then have c2: "2 \<le> \<lceil>2 ^ 52 / x\<rceil>" by (simp add: le_ceiling_iff)
  have "2 ^ 52 / (2 * x) = (2 ^ 52 / x) / 2" by simp
  also have "\<dots> \<le> of_int \<lceil>2 ^ 52 / x\<rceil> / 2" by (simp add: divide_right_mono)
  also have "\<dots> \<le> of_int (\<lceil>2 ^ 52 / x\<rceil> - 1)" using c2 by simp
  finally have "\<lceil>2 ^ 52 / (2 * x)\<rceil> \<le> \<lceil>2 ^ 52 / x\<rceil> - 1" by (simp only: ceiling_le_iff)
  then have d: "\<lceil>2 ^ 52 / (2 * x)\<rceil> < \<lceil>2 ^ 52 / x\<rceil>" by simp
  have "\<not> 2 ^ 53 \<le> 2 * x" using a by simp
  then show "(2 * x, x) \<in> measure (\<lambda>x. if 2 ^ 53 \<le> x then nat \<lfloor>x\<rfloor> else nat \<lceil>2 ^ 52 / x\<rceil>)"
    using a d c2 by auto
qed

declare round_pos.simps [simp del]

definition round_double :: "real \<Rightarrow> real" where
  "round_double x = (if x < 0 then - round_pos (- x) else round_pos x)"

text \<open>\<^verbatim>\<open>float(n)\<close>, the conversion an int undergoes when it meets a float.\<close>

definition float_of_int :: "int \<Rightarrow> real" where
  "float_of_int n = round_double (real_of_int n)"

text \<open>\<^verbatim>\<open>a * b\<close>, \<^verbatim>\<open>a + b\<close> and \<^verbatim>\<open>a - b\<close> on two floats.\<close>

definition float_mul :: "real \<Rightarrow> real \<Rightarrow> real" where
  "float_mul a b = round_double (a * b)"

definition float_add :: "real \<Rightarrow> real \<Rightarrow> real" where
  "float_add a b = round_double (a + b)"

definition float_sub :: "real \<Rightarrow> real \<Rightarrow> real" where
  "float_sub a b = round_double (a - b)"

text \<open>
  \<^verbatim>\<open>a / b\<close> on two ints: true division, raising on a zero divisor; the quotient of the
  two integers is rounded once.
\<close>

definition int_truediv :: "int \<Rightarrow> int \<Rightarrow> real result" where
  "int_truediv a b =
     (if b = 0 then Inl ZeroDivisionError
      else Inr (round_double (real_of_int a / real_of_int b)))"

text \<open>\<^verbatim>\<open>a / b\<close> on two floats: raises on a zero divisor as well.\<close>

definition float_truediv :: "real \<Rightarrow> real \<Rightarrow> real result" where
  "float_truediv a b = (if b = 0 then Inl ZeroDivisionError else Inr (round_double (a / b)))"

section \<open>Confusion-matrix metrics\<close>

text \<open>
  \<^verbatim>\<open>
  def accuracy(tp, fp, fn, tn):
      correct = tp + tn
      total = tp + fp + fn + tn
      return correct / total
  \<close>
\<close>

definition accuracy :: "int \<Rightarrow> int \<Rightarrow> int \<Rightarrow> int \<Rightarrow> real result" where
  "accuracy tp fp fn tn =
     (let correct = tp + tn;
          total = tp + fp + fn + tn
      in int_truediv correct total)"

text \<open>\<^verbatim>\<open>def precision(tp, fp, fn, tn): return tp / (tp + fp)\<close>\<close>

definition precision :: "int \<Rightarrow> int \<Rightarrow> int \<Rightarrow> int \<Rightarrow> real result" where
  "precision tp fp fn tn = int_truediv tp (tp + fp)"

text \<open>\<^verbatim>\<open>def recall(tp, fp, fn, tn): return tp / (tp + fn)\<close>\<close>

definition recall :: "int \<Rightarrow> int \<Rightarrow> int \<Rightarrow> int \<Rightarrow> real result" where
  "recall tp fp fn tn = int_truediv tp (tp + fn)"

text \<open>
  \<^verbatim>\<open>
  def f1_score(tp, fp, fn, tn):
      p = precision(tp, fp, fn, tn)
      r = recall(tp, fp, fn, tn)
      return 2 * p * r / (p + r)
  \<close>
  The two calls come first, in this order; an exception of either one leaves the function.
  The last line is \<^verbatim>\<open>((2 * p) * r) / (p + r)\<close>: four float operations, each rounded.
\<close>

definition f1_score :: "int \<Rightarrow> int \<Rightarrow> int \<Rightarrow> int \<Rightarrow> real result" where
  "f1_score tp fp fn tn =
     (case precision tp fp fn tn of
        Inl e \<Rightarrow> Inl e
      | Inr p \<Rightarrow>
          (case recall tp fp fn tn of
             Inl e \<Rightarrow> Inl e
           | Inr r \<Rightarrow>
               float_truediv (float_mul (float_mul (float_of_int 2) p) r) (float_add p r)))"

section \<open>The random source and \<^verbatim>\<open>random.shuffle\<close>\<close>

text \<open>
  The splitters draw from Python's global random generator. Its state is modelled as the
  infinite sequence of raw numbers it is still going to produce; nothing is assumed about
  them, so a theorem about every \<open>rng\<close> holds for every run. \<open>randbelow n\<close> is the
  generator's \<^verbatim>\<open>_randbelow(n)\<close>: a number below \<open>n\<close>, and the generator moves on.
\<close>

type_synonym rng = "nat \<Rightarrow> nat"

definition randbelow :: "nat \<Rightarrow> rng \<Rightarrow> nat \<times> rng" where
  "randbelow n g = (g 0 mod n, \<lambda>k. g (Suc k))"

text \<open>
  \<^verbatim>\<open>random.shuffle(x)\<close> of the standard library, which the notebook calls:
  \<^verbatim>\<open>
  for i in reversed(range(1, len(x))):
      j = randbelow(i + 1)
      x[i], x[j] = x[j], x[i]
  \<close>
  \<open>shuffle_loop i\<close> is the rest of the loop when the indices \<open>i, i - 1, ..., 1\<close> remain.
\<close>

fun shuffle_loop :: "nat \<Rightarrow> 'a list \<Rightarrow> rng \<Rightarrow> 'a list \<times> rng" where
  "shuffle_loop 0 x g = (x, g)"
| "shuffle_loop (Suc m) x g =
     (let i = Suc m;
          (j, g') = randbelow (i + 1) g
      in shuffle_loop m (x[i := x ! j, j := x ! i]) g')"

definition shuffle :: "'a list \<Rightarrow> rng \<Rightarrow> 'a list \<times> rng" where
  "shuffle x g = shuffle_loop (length x - 1) x g"

section \<open>Slices, \<^verbatim>\<open>int()\<close> and indexing\<close>

text \<open>\<^verbatim>\<open>int(x)\<close> on a float drops the fractional part, towards zero.\<close>

definition py_int :: "real \<Rightarrow> int" where
  "py_int x = (if x < 0 then \<lceil>x\<rceil> else \<lfloor>x\<rfloor>)"

text \<open>
  A slice bound \<open>k\<close> on a list of length \<open>n\<close>: a negative bound counts from the end, and
  every bound is clamped into \<open>0..n\<close>. A slice never raises.
\<close>

definition slice_bound :: "nat \<Rightarrow> int \<Rightarrow> nat" where
  "slice_bound n k = (if k < 0 then nat (max 0 (int n + k)) else min n (nat k))"

text \<open>\<^verbatim>\<open>xs[:k]\<close> and \<^verbatim>\<open>xs[k:]\<close>.\<close>

definition slice_to :: "'a list \<Rightarrow> int \<Rightarrow> 'a list" where
  "slice_to xs k = take (slice_bound (length xs) k) xs"

definition slice_from :: "'a list \<Rightarrow> int \<Rightarrow> 'a list" where
  "slice_from xs k = drop (slice_bound (length xs) k) xs"

text \<open>\<^verbatim>\<open>xs[i]\<close> for an index \<open>i \<ge> 0\<close>: out of range raises \<^verbatim>\<open>IndexError\<close>.\<close>

definition getitem :: "'a list \<Rightarrow> nat \<Rightarrow> 'a result" where
  "getitem xs i = (if i < length xs then Inr (xs ! i) else Inl IndexError)"

text \<open>The comprehension \<^verbatim>\<open>[xs[i] for i in idxs]\<close>: the first failing index ends it.\<close>

fun gather :: "'a list \<Rightarrow> nat list \<Rightarrow> 'a list result" where
  "gather xs [] = Inr []"
| "gather xs (i # rest) =
     (case getitem xs i of
        Inl e \<Rightarrow> Inl e
      | Inr v \<Rightarrow> (case gather xs rest of Inl e \<Rightarrow> Inl e | Inr vs \<Rightarrow> Inr (v # vs)))"

section \<open>The splitters\<close>

text \<open>
  \<^verbatim>\<open>
  def split_data(data, prob):
      data = data[:]
      random.shuffle(data)
      cut = int(len(data) * prob)
      return data[:cut], data[cut:]
  \<close>
  The product \<^verbatim>\<open>len(data) * prob\<close> is a float product: the length is converted and
  the product rounded before \<^verbatim>\<open>int\<close> cuts it.
  On values, the copy \<^verbatim>\<open>data[:]\<close> is the list itself; the store model below keeps
  the copy and the caller's list apart. The function returns the pair and the generator
  it leaves behind.
\<close>

definition split_data :: "'a list \<Rightarrow> real \<Rightarrow> rng \<Rightarrow> ('a list \<times> 'a list) \<times> rng" where
  "split_data data prob g =
     (let (shuffled, g') = shuffle data g;
          cut = py_int (float_mul (float_of_int (int (length shuffled))) prob)
      in ((slice_to shuffled cut, slice_from shuffled cut), g'))"

text \<open>
  \<^verbatim>\<open>
  def train_test_split(xs, ys, test_pct):
      idxs = [i for i in range(len(xs))]
      train_idxs, test_idxs = split_data(idxs, 1 - test_pct)
      return ([xs[i] for i in train_idxs],
              [xs[i] for i in test_idxs],
              [ys[i] for i in train_idxs],
              [ys[i] for i in test_idxs])
  \<close>
  The four comprehensions run in this order, and there is no check of the two lengths.
\<close>

definition train_test_split ::
  "'x list \<Rightarrow> 'y list \<Rightarrow> real \<Rightarrow> rng \<Rightarrow> ('x list \<times> 'x list \<times> 'y list \<times> 'y list) result \<times> rng" where
  "train_test_split xs ys test_pct g =
     (let idxs = [0..<length xs];
          ((train_idxs, test_idxs), g') = split_data idxs (float_sub (float_of_int 1) test_pct) g
      in (case gather xs train_idxs of
            Inl e \<Rightarrow> Inl e
          | Inr x_train \<Rightarrow>
         (case gather xs test_idxs of
            Inl e \<Rightarrow> Inl e
          | Inr x_test \<Rightarrow>
         (case gather ys train_idxs of
            Inl e \<Rightarrow> Inl e
          | Inr y_train \<Rightarrow>
         (case gather ys test_idxs of
            Inl e \<Rightarrow> Inl e
          | Inr y_test \<Rightarrow> Inr (x_train, x_test, y_train, y_test)))), g'))"

section \<open>\<^verbatim>\<open>split_data\<close> on a store of list objects\<close>

text \<open>
  A Python list is an object that several names can share, and \<^verbatim>\<open>random.shuffle\<close>
  changes its argument in place. To say what a call does to the caller's list, the list
  objects live in a store: a reference is a position in it, and a new object is put at
  the end. \<open>split_data_st\<close> is \<open>split_data\<close> statement by statement on the store.
\<close>

type_synonym ref = nat

type_synonym 'a store = "'a list list"

definition alloc :: "'a list \<Rightarrow> 'a store \<Rightarrow> ref \<times> 'a store" where
  "alloc v s = (length s, s @ [v])"

text \<open>\<^verbatim>\<open>x[i] = v\<close> on the object at \<open>r\<close>.\<close>

definition setitem_st :: "ref \<Rightarrow> nat \<Rightarrow> 'a \<Rightarrow> 'a store \<Rightarrow> 'a store" where
  "setitem_st r i v s = s[r := (s ! r)[i := v]]"

fun shuffle_loop_st :: "nat \<Rightarrow> ref \<Rightarrow> 'a store \<Rightarrow> rng \<Rightarrow> 'a store \<times> rng" where
  "shuffle_loop_st 0 r s g = (s, g)"
| "shuffle_loop_st (Suc m) r s g =
     (let i = Suc m;
          (j, g') = randbelow (i + 1) g;
          xj = s ! r ! j;
          xi = s ! r ! i
      in shuffle_loop_st m r (setitem_st r j xi (setitem_st r i xj s)) g')"

definition shuffle_st :: "ref \<Rightarrow> 'a store \<Rightarrow> rng \<Rightarrow> 'a store \<times> rng" where
  "shuffle_st r s g = shuffle_loop_st (length (s ! r) - 1) r s g"

definition split_data_st ::
  "ref \<Rightarrow> real \<Rightarrow> 'a store \<Rightarrow> rng \<Rightarrow> (ref \<times> ref) \<times> 'a store \<times> rng" where
  "split_data_st data prob s g =
     (let (copy, s1) = alloc (s ! data) s;
          (s2, g') = shuffle_st copy s1 g;
          cut = py_int (float_mul (float_of_int (int (length (s2 ! copy)))) prob);
          (train, s3) = alloc (slice_to (s2 ! copy) cut) s2;
          (test, s4) = alloc (slice_from (s2 ! copy) cut) s3
      in ((train, test), s4, g'))"

section \<open>Properties of the rounding\<close>

lemma floor_bounds: "of_int \<lfloor>y\<rfloor> \<le> (y::real) \<and> y < of_int \<lfloor>y\<rfloor> + 1"
  by linarith

lemma round_half_even_err: "\<bar>of_int (round_half_even y) - y\<bar> \<le> 1 / 2"
  using floor_bounds [of y]
  by (simp add: round_half_even_def Let_def abs_le_iff)

lemma round_half_even_nearest:
  "\<bar>of_int (round_half_even y) - y\<bar> \<le> \<bar>of_int k - y\<bar>"
proof -
  define f where "f = \<lfloor>y\<rfloor>"
  have b: "of_int f \<le> y" "y < of_int f + 1" unfolding f_def by linarith+
  have r: "round_half_even y = f \<or> round_half_even y = f + 1"
    by (simp add: round_half_even_def Let_def f_def)
  have e: "\<bar>of_int (round_half_even y) - y\<bar> \<le> 1 / 2" by (rule round_half_even_err)
  show ?thesis
  proof (cases "k \<le> f")
    case True
    then have kf: "(of_int k :: real) \<le> of_int f" by simp
    have lo: "\<bar>of_int (round_half_even y) - y\<bar> \<le> y - of_int f"
    proof (cases "round_half_even y = f")
      case True
      then show ?thesis using b by simp
    next
      case False
      then have r1: "round_half_even y = f + 1" using r by simp
      have "1 / 2 \<le> y - of_int f"
        using False by (auto simp: round_half_even_def Let_def f_def split: if_splits)
      with e show ?thesis by linarith
    qed
    have "y - of_int f \<le> \<bar>of_int k - y\<bar>" using kf b by linarith
    with lo show ?thesis by linarith
  next
    case False
    then have "f + 1 \<le> k" by simp
    then have kf: "of_int f + 1 \<le> (of_int k :: real)" by linarith
    have hi: "\<bar>of_int (round_half_even y) - y\<bar> \<le> of_int f + 1 - y"
    proof (cases "round_half_even y = f + 1")
      case True
      then show ?thesis using b by simp
    next
      case False
      then have r0: "round_half_even y = f" using r by simp
      have "y - of_int f \<le> 1 / 2"
        using False by (auto simp: round_half_even_def Let_def f_def split: if_splits)
      then show ?thesis using b r0 by simp
    qed
    have "of_int f + 1 - y \<le> \<bar>of_int k - y\<bar>" using kf b by linarith
    with hi show ?thesis by linarith
  qed
qed

lemma round_pos_nonpos: "x \<le> 0 \<Longrightarrow> round_pos x = 0"
  by (subst round_pos.simps) simp

lemma round_pos_mid:
  "2 ^ 52 \<le> x \<Longrightarrow> x < 2 ^ 53 \<Longrightarrow> round_pos x = of_int (round_half_even x)"
  by (subst round_pos.simps) simp

lemma round_pos_small:
  "0 < x \<Longrightarrow> x < 2 ^ 52 \<Longrightarrow> round_pos x = round_pos (2 * x) / 2"
  by (subst round_pos.simps) simp

lemma round_pos_large:
  "2 ^ 53 \<le> x \<Longrightarrow> round_pos x = 2 * round_pos (x / 2)"
  by (subst round_pos.simps) simp

lemma round_pos_err: "0 < x \<Longrightarrow> \<bar>round_pos x - x\<bar> \<le> x / 2 ^ 53"
proof (induction x rule: round_pos.induct)
  case (1 x)
  show ?case
  proof (cases "2 ^ 53 \<le> x")
    case True
    have ih: "\<bar>round_pos (x / 2) - x / 2\<bar> \<le> x / 2 / 2 ^ 53"
      using "1.IH"(1) "1.prems" True by simp
    have "\<bar>2 * round_pos (x / 2) - x\<bar> = 2 * \<bar>round_pos (x / 2) - x / 2\<bar>"
      by (simp add: abs_if)
    then have "\<bar>2 * round_pos (x / 2) - x\<bar> \<le> x / 2 ^ 53" using ih by linarith
    then show ?thesis by (simp only: round_pos_large [OF True])
  next
    case False
    show ?thesis
    proof (cases "x < 2 ^ 52")
      case True
      have ih: "\<bar>round_pos (2 * x) - 2 * x\<bar> \<le> 2 * x / 2 ^ 53"
        using "1.IH"(2) "1.prems" False True by simp
      have "\<bar>round_pos (2 * x) / 2 - x\<bar> = \<bar>round_pos (2 * x) - 2 * x\<bar> / 2"
        by (simp add: abs_if)
      then have "\<bar>round_pos (2 * x) / 2 - x\<bar> \<le> x / 2 ^ 53" using ih by linarith
      then show ?thesis by (simp only: round_pos_small [OF "1.prems" True])
    next
      case mid: False
      have r: "round_pos x = of_int (round_half_even x)"
        using False mid by (intro round_pos_mid) simp_all
      have "1 / 2 \<le> x / 2 ^ 53" using mid by simp
      with round_half_even_err [of x] show ?thesis unfolding r by linarith
    qed
  qed
qed

lemma round_pos_nearest_int:
  "0 < x \<Longrightarrow> x < 2 ^ 53 \<Longrightarrow> \<bar>round_pos x - x\<bar> \<le> \<bar>of_int k - x\<bar>"
proof (induction x arbitrary: k rule: round_pos.induct)
  case (1 x)
  show ?case
  proof (cases "x < 2 ^ 52")
    case True
    have nl: "\<not> 2 ^ 53 \<le> x" using "1.prems" by simp
    have x2: "2 * x < 2 ^ 53" using True by simp
    have p2: "0 < 2 * x" using "1.prems" by simp
    have np: "\<not> x \<le> 0" using "1.prems" by simp
    have ih: "\<bar>round_pos (2 * x) - 2 * x\<bar> \<le> \<bar>of_int (2 * k) - 2 * x\<bar>"
      using "1.IH"(2) [OF np nl True p2 x2] .
    have a: "\<bar>round_pos (2 * x) / 2 - x\<bar> = \<bar>round_pos (2 * x) - 2 * x\<bar> / 2"
      by (simp add: abs_if)
    have b: "\<bar>of_int (2 * k) - 2 * x\<bar> = 2 * \<bar>of_int k - x\<bar>"
      by (simp add: abs_if)
    have "\<bar>round_pos (2 * x) / 2 - x\<bar> \<le> \<bar>of_int k - x\<bar>" using ih a b by linarith
    then show ?thesis by (simp only: round_pos_small [OF "1.prems"(1) True])
  next
    case False
    have r: "round_pos x = of_int (round_half_even x)"
      using False "1.prems" by (intro round_pos_mid) simp_all
    show ?thesis unfolding r by (rule round_half_even_nearest)
  qed
qed

lemma round_pos_scaled:
  "2 ^ 52 \<le> x * 2 ^ k \<Longrightarrow> x * 2 ^ k < 2 ^ 53 \<Longrightarrow>
   round_pos x = of_int (round_half_even (x * 2 ^ k)) / 2 ^ k"
proof (induction k arbitrary: x)
  case 0
  then show ?case by (simp add: round_pos_mid)
next
  case (Suc k)
  have p2: "(0::real) < 2 ^ Suc k" by simp
  have pos: "0 < x"
  proof (rule ccontr)
    assume "\<not> 0 < x"
    then have "x * 2 ^ Suc k \<le> 0" using p2 by (simp only: mult_le_0_iff) linarith
    moreover have "(0::real) < 2 ^ 52" by simp
    ultimately show False using Suc.prems(1) by linarith
  qed
  have one: "(1::real) \<le> 2 ^ k" by simp
  have "x * 2 \<le> x * 2 * 2 ^ k" using pos one by simp
  also have "\<dots> = x * 2 ^ Suc k" by simp
  finally have "x * 2 < 2 ^ 53" using Suc.prems(2) by linarith
  then have small: "x < 2 ^ 52" by simp
  have e: "2 * x * 2 ^ k = x * 2 ^ Suc k" by simp
  have "round_pos (2 * x) = of_int (round_half_even (2 * x * 2 ^ k)) / 2 ^ k"
    using Suc.prems unfolding e [symmetric] by (rule Suc.IH)
  then have "round_pos (2 * x) / 2 = of_int (round_half_even (x * 2 ^ Suc k)) / 2 ^ Suc k"
    by (simp only: e) simp
  then show ?case by (simp only: round_pos_small [OF pos small])
qed

lemma round_double_zero: "round_double 0 = 0"
  by (simp add: round_double_def round_pos_nonpos)

lemma round_double_eval:
  "2 ^ 52 \<le> x * 2 ^ k \<Longrightarrow> x * 2 ^ k < 2 ^ 53 \<Longrightarrow>
   round_double x = of_int (round_half_even (x * 2 ^ k)) / 2 ^ k"
proof -
  assume a: "2 ^ 52 \<le> x * 2 ^ k" "x * 2 ^ k < 2 ^ 53"
  have "\<not> x < 0"
  proof
    assume "x < 0"
    then have "x * 2 ^ k < 0" by (simp add: mult_less_0_iff)
    with a(1) show False by simp
  qed
  then show ?thesis using round_pos_scaled [OF a] by (simp add: round_double_def)
qed

lemma round_double_err: "\<bar>round_double x - x\<bar> \<le> \<bar>x\<bar> / 2 ^ 53"
proof -
  consider "x < 0" | "x = 0" | "0 < x" by linarith
  then show ?thesis
  proof cases
    case 1
    then have "\<bar>round_pos (- x) - (- x)\<bar> \<le> (- x) / 2 ^ 53"
      by (intro round_pos_err) simp
    moreover have "\<bar>- round_pos (- x) - x\<bar> = \<bar>round_pos (- x) - (- x)\<bar>"
      by (simp add: abs_if)
    ultimately show ?thesis using 1 by (simp add: round_double_def)
  next
    case 2
    then show ?thesis by (simp add: round_double_zero)
  next
    case 3
    then have "\<bar>round_pos x - x\<bar> \<le> x / 2 ^ 53" by (rule round_pos_err)
    then show ?thesis using 3 by (simp add: round_double_def)
  qed
qed

lemma round_double_lower: "0 \<le> x \<Longrightarrow> x * (1 - 1 / 2 ^ 53) \<le> round_double x"
proof -
  assume "0 \<le> x"
  then have "\<bar>round_double x - x\<bar> \<le> x / 2 ^ 53" using round_double_err [of x] by simp
  moreover have "x * (1 - 1 / 2 ^ 53) = x - x / 2 ^ 53" by (simp add: algebra_simps)
  ultimately show ?thesis by linarith
qed


lemma round_double_pos: "0 < x \<Longrightarrow> 0 < round_double x"
proof -
  assume p: "0 < x"
  have "0 < x * (1 - 1 / 2 ^ 53)" using p by simp
  with round_double_lower [of x] p show ?thesis by linarith
qed

lemma round_double_nonneg: "0 \<le> x \<Longrightarrow> 0 \<le> round_double x"
  using round_double_pos [of x] round_double_zero by (cases "x = 0") auto

lemma round_double_between_ints:
  assumes "0 \<le> x" "x < 2 ^ 53"
  shows "of_int \<lfloor>x\<rfloor> \<le> round_double x \<and> round_double x \<le> of_int \<lceil>x\<rceil>"
proof (cases "x = 0")
  case True
  then show ?thesis by (simp add: round_double_zero)
next
  case False
  then have p: "0 < x" using assms by simp
  have r: "round_double x = round_pos x" using p by (simp add: round_double_def)
  have lo: "\<bar>round_pos x - x\<bar> \<le> \<bar>of_int \<lfloor>x\<rfloor> - x\<bar>"
    using p assms(2) by (rule round_pos_nearest_int)
  have hi: "\<bar>round_pos x - x\<bar> \<le> \<bar>of_int \<lceil>x\<rceil> - x\<bar>"
    using p assms(2) by (rule round_pos_nearest_int)
  have "of_int \<lfloor>x\<rfloor> \<le> x" "x \<le> of_int \<lceil>x\<rceil>" by linarith+
  then show ?thesis using lo hi unfolding r by linarith
qed

lemma round_double_of_nat: "real n < 2 ^ 53 \<Longrightarrow> round_double (real n) = real n"
  using round_double_between_ints [of "real n"] by simp




section \<open>Properties of the metrics\<close>

lemma float_of_int_exact: "0 \<le> n \<Longrightarrow> n < 2 ^ 53 \<Longrightarrow> float_of_int n = real_of_int n"
proof -
  assume a: "0 \<le> n" "n < 2 ^ 53"
  have "(0::real) \<le> of_int n" using a by simp
  moreover have "real_of_int n < 2 ^ 53" using a(2) by (metis of_int_less_iff of_int_numeral of_int_power)
  ultimately show ?thesis
    using round_double_between_ints [of "real_of_int n"] by (simp add: float_of_int_def)
qed

lemma float_of_int_two: "float_of_int 2 = 2"
  using float_of_int_exact [of 2] by simp

lemma precision_Inr:
  "tp + fp \<noteq> 0 \<Longrightarrow>
   precision tp fp fn tn = Inr (round_double (real_of_int tp / real_of_int (tp + fp)))"
  by (simp add: precision_def int_truediv_def)

lemma recall_Inr:
  "tp + fn \<noteq> 0 \<Longrightarrow>
   recall tp fp fn tn = Inr (round_double (real_of_int tp / real_of_int (tp + fn)))"
  by (simp add: recall_def int_truediv_def)

lemma f1_score_Inr:
  assumes "precision tp fp fn tn = Inr p" "recall tp fp fn tn = Inr r" "0 < p + r"
  shows "f1_score tp fp fn tn =
           Inr (round_double (round_double (round_double (2 * p) * r) / round_double (p + r)))"
proof -
  have "0 < round_double (p + r)" using assms(3) by (rule round_double_pos)
  then show ?thesis
    by (simp add: f1_score_def assms(1,2) float_truediv_def float_mul_def float_add_def
        float_of_int_two)
qed




text \<open>
  Claim C6. \<open>accuracy\<close>, \<open>precision\<close> and \<open>recall\<close> raise \<^verbatim>\<open>ZeroDivisionError\<close> exactly
  when their denominator, \<open>tp + fp + fn + tn\<close>, \<open>tp + fp\<close> and \<open>tp + fn\<close>, is zero; on
  every other input each returns a value.
\<close>

theorem metrics_zero_division:
  "(accuracy tp fp fn tn = Inl ZeroDivisionError \<longleftrightarrow> tp + fp + fn + tn = 0)
   \<and> (precision tp fp fn tn = Inl ZeroDivisionError \<longleftrightarrow> tp + fp = 0)
   \<and> (recall tp fp fn tn = Inl ZeroDivisionError \<longleftrightarrow> tp + fn = 0)
   \<and> (tp + fp + fn + tn \<noteq> 0 \<longrightarrow> (\<exists>v. accuracy tp fp fn tn = Inr v))
   \<and> (tp + fp \<noteq> 0 \<longrightarrow> (\<exists>v. precision tp fp fn tn = Inr v))
   \<and> (tp + fn \<noteq> 0 \<longrightarrow> (\<exists>v. recall tp fp fn tn = Inr v))"
  by (simp add: accuracy_def precision_def recall_def int_truediv_def Let_def)

theorem metrics_zero_division_witness:
  "accuracy 0 0 0 0 = Inl ZeroDivisionError
   \<and> precision 0 0 5 7 = Inl ZeroDivisionError
   \<and> recall 0 5 0 7 = Inl ZeroDivisionError
   \<and> (\<exists>v. accuracy 3 1 2 4 = Inr v) \<and> (\<exists>v. precision 3 1 2 4 = Inr v)
   \<and> (\<exists>v. recall 3 1 2 4 = Inr v)"
  using metrics_zero_division [of 0 0 0 0] metrics_zero_division [of 0 0 5 7]
    metrics_zero_division [of 0 5 0 7] metrics_zero_division [of 3 1 2 4]
  by simp

text \<open>
  Claim C8. On the confusion matrix \<open>(70, 4930, 13930, 981070)\<close> the four metrics return
  the doubles written out below. They lie within \<open>10^-16\<close> of the exact values
  \<open>981140/1000000 = 0.98114\<close>, \<open>70/5000 = 0.014\<close>, \<open>70/14000 = 0.005\<close> and \<open>14/1900\<close>,
  and \<open>14/1900\<close> is \<open>0.00736\<close> to five decimal places.
\<close>

theorem book_example_values:
  "accuracy 70 4930 13930 981070 = Inr (8837323476796577 / 9007199254740992)
   \<and> precision 70 4930 13930 981070 = Inr (8070450532247929 / 576460752303423488)
   \<and> recall 70 4930 13930 981070 = Inr (5764607523034235 / 1152921504606846976)
   \<and> f1_score 70 4930 13930 981070 = Inr (66368836613881 / 9007199254740992)
   \<and> \<bar>8837323476796577 / 9007199254740992 - 981140 / 1000000\<bar> < (1 / 10 ^ 16 :: real)
   \<and> \<bar>8070450532247929 / 576460752303423488 - 70 / 5000\<bar> < (1 / 10 ^ 17 :: real)
   \<and> \<bar>5764607523034235 / 1152921504606846976 - 70 / 14000\<bar> < (1 / 10 ^ 18 :: real)
   \<and> \<bar>66368836613881 / 9007199254740992 - 14 / 1900\<bar> < (1 / 10 ^ 17 :: real)
   \<and> (981140 / 1000000 :: real) = 0.98114
   \<and> (70 / 5000 :: real) = 0.014
   \<and> (70 / 14000 :: real) = 0.005
   \<and> \<bar>14 / 1900 - 0.00736\<bar> < (0.00001 :: real)"
proof -
  have acc: "accuracy 70 4930 13930 981070 = Inr (8837323476796577 / 9007199254740992)"
    using round_double_eval [of "981140 / 1000000" 53]
    by (simp add: accuracy_def int_truediv_def round_half_even_def)
  have p: "precision 70 4930 13930 981070 = Inr (8070450532247929 / 576460752303423488)"
    using round_double_eval [of "70 / 5000" 59]
    by (simp add: precision_def int_truediv_def round_half_even_def)
  have r: "recall 70 4930 13930 981070 = Inr (5764607523034235 / 1152921504606846976)"
    using round_double_eval [of "70 / 14000" 60]
    by (simp add: recall_def int_truediv_def round_half_even_def)
  have s: "(0::real) < 8070450532247929 / 576460752303423488
                       + 5764607523034235 / 1152921504606846976" by simp
  have a: "round_double (2 * (8070450532247929 / 576460752303423488))
             = 8070450532247929 / 288230376151711744"
    using round_double_eval [of "2 * (8070450532247929 / 576460752303423488)" 58]
    by (simp add: round_half_even_def)
  have b: "round_double (8070450532247929 / 288230376151711744
                          * (5764607523034235 / 1152921504606846976))
             = 5165088340638675 / 36893488147419103232"
    using round_double_eval [of "8070450532247929 / 288230376151711744
                          * (5764607523034235 / 1152921504606846976)" 65]
    by (simp add: round_half_even_def)
  have d: "round_double (8070450532247929 / 576460752303423488
                          + 5764607523034235 / 1152921504606846976)
             = 5476377146882523 / 288230376151711744"
    using round_double_eval [of "8070450532247929 / 576460752303423488
                          + 5764607523034235 / 1152921504606846976" 58]
    by (simp add: round_half_even_def)
  have q: "round_double (5165088340638675 / 36893488147419103232
                          / (5476377146882523 / 288230376151711744))
             = 66368836613881 / 9007199254740992"
    using round_double_eval [of "5165088340638675 / 36893488147419103232
                          / (5476377146882523 / 288230376151711744)" 60]
    by (simp add: round_half_even_def)
  have f: "f1_score 70 4930 13930 981070 = Inr (66368836613881 / 9007199254740992)"
    by (simp only: f1_score_Inr [OF p r s] a b d q)
  have n1: "\<bar>8837323476796577 / 9007199254740992 - 981140 / 1000000\<bar> < (1 / 10 ^ 16 :: real)"
    by simp
  have n2: "\<bar>8070450532247929 / 576460752303423488 - 70 / 5000\<bar> < (1 / 10 ^ 17 :: real)"
    by simp
  have n3: "\<bar>5764607523034235 / 1152921504606846976 - 70 / 14000\<bar> < (1 / 10 ^ 18 :: real)"
    by simp
  have n4: "\<bar>66368836613881 / 9007199254740992 - 14 / 1900\<bar> < (1 / 10 ^ 17 :: real)"
    by simp
  have n5: "(981140 / 1000000 :: real) = 0.98114" "(70 / 5000 :: real) = 0.014"
    "(70 / 14000 :: real) = 0.005" "\<bar>14 / 1900 - 0.00736\<bar> < (0.00001 :: real)"
    by simp_all
  from acc p r f n1 n2 n3 n4 n5 show ?thesis by blast
qed



lemma precision_recall_pos:
  assumes "0 < tp" "0 \<le> fp" "0 \<le> fn"
  shows "\<exists>p r. precision tp fp fn tn = Inr p \<and> recall tp fp fn tn = Inr r \<and> 0 < p \<and> 0 < r"
proof -
  let ?p = "round_double (real_of_int tp / real_of_int (tp + fp))"
  let ?r = "round_double (real_of_int tp / real_of_int (tp + fn))"
  have p: "precision tp fp fn tn = Inr ?p" using assms by (intro precision_Inr) simp
  have r: "recall tp fp fn tn = Inr ?r" using assms by (intro recall_Inr) simp
  have pp: "0 < ?p" using assms by (intro round_double_pos) simp
  have rp: "0 < ?r" using assms by (intro round_double_pos) simp
  from p r pp rp show ?thesis by blast
qed



lemma f1_score_operand_fails:
  "tp + fp = 0 \<or> tp + fn = 0 \<Longrightarrow> f1_score tp fp fn tn = Inl ZeroDivisionError"
  by (auto simp: f1_score_def precision_def recall_def int_truediv_def)

lemma sum_zero_condition:
  assumes "0 \<le> tp" "0 \<le> fp" "0 \<le> fn"
  shows "(\<exists>p r. precision tp fp fn tn = Inr p \<and> recall tp fp fn tn = Inr r \<and> p + r = 0)
         \<longleftrightarrow> tp = 0 \<and> 0 < fp \<and> 0 < fn"
proof (cases "tp = 0")
  case True
  then show ?thesis using assms
    by (auto simp: precision_def recall_def int_truediv_def round_double_zero)
next
  case False
  hence pos: "0 < tp" using assms by simp
  obtain p r where p: "precision tp fp fn tn = Inr p" and r: "recall tp fp fn tn = Inr r"
    and pp: "0 < p" and rp: "0 < r"
    using precision_recall_pos [OF pos assms(2,3)] by blast
  have "p + r \<noteq> 0" using pp rp by linarith
  then show ?thesis using False p r by auto
qed

lemma f1_score_fails_iff:
  assumes "0 \<le> tp" "0 \<le> fp" "0 \<le> fn"
  shows "f1_score tp fp fn tn = Inl ZeroDivisionError \<longleftrightarrow> tp = 0"
proof (cases "tp = 0")
  case True
  then show ?thesis
    by (simp add: f1_score_def precision_def recall_def int_truediv_def float_truediv_def
        float_mul_def float_add_def round_double_zero)
next
  case False
  hence pos: "0 < tp" using assms by simp
  obtain p r where p: "precision tp fp fn tn = Inr p" and r: "recall tp fp fn tn = Inr r"
    and pp: "0 < p" and rp: "0 < r"
    using precision_recall_pos [OF pos assms(2,3)] by blast
  have "0 < p + r" using pp rp by simp
  from f1_score_Inr [OF p r this] False show ?thesis by simp
qed

text \<open>
  Claim C10. \<open>f1_score\<close> raises \<^verbatim>\<open>ZeroDivisionError\<close> whenever \<open>tp + fp = 0\<close> or
  \<open>tp + fn = 0\<close>, because it calls \<open>precision\<close> and \<open>recall\<close> first. On non-negative
  counts the condition "precision and recall are defined and their sum is zero" holds
  exactly when \<open>tp = 0\<close> with \<open>fp > 0\<close> and \<open>fn > 0\<close>, while \<open>f1_score\<close> fails exactly
  when \<open>tp = 0\<close>: a strictly larger set, as the inputs \<open>(0, 0, 5, 7)\<close> and
  \<open>(0, 5, 0, 7)\<close> of the witness show.
\<close>

theorem f1_score_zero_division:
  "(tp + fp = 0 \<or> tp + fn = 0 \<longrightarrow> f1_score tp fp fn tn = Inl ZeroDivisionError)
   \<and> (0 \<le> tp \<and> 0 \<le> fp \<and> 0 \<le> fn \<longrightarrow>
        ((\<exists>p r. precision tp fp fn tn = Inr p \<and> recall tp fp fn tn = Inr r \<and> p + r = 0)
           \<longleftrightarrow> tp = 0 \<and> 0 < fp \<and> 0 < fn)
        \<and> (f1_score tp fp fn tn = Inl ZeroDivisionError \<longleftrightarrow> tp = 0))"
  using f1_score_operand_fails [of tp fp fn tn] sum_zero_condition [of tp fp fn tn]
    f1_score_fails_iff [of tp fp fn tn]
  by blast

theorem f1_score_zero_division_witness:
  "f1_score 0 0 5 7 = Inl ZeroDivisionError
   \<and> f1_score 0 5 0 7 = Inl ZeroDivisionError
   \<and> recall 0 0 5 7 = Inr 0
   \<and> precision 0 5 0 7 = Inr 0
   \<and> \<not> (\<exists>p r. precision 0 0 5 7 = Inr p \<and> recall 0 0 5 7 = Inr r \<and> p + r = 0)
   \<and> \<not> (\<exists>p r. precision 0 5 0 7 = Inr p \<and> recall 0 5 0 7 = Inr r \<and> p + r = 0)"
  using f1_score_zero_division [of 0 0 5 7] f1_score_zero_division [of 0 5 0 7]
  by (simp add: precision_def recall_def int_truediv_def round_double_zero)

section \<open>Properties of the splitters\<close>

lemma randbelow_less: "0 < n \<Longrightarrow> fst (randbelow n g) < n"
  by (simp add: randbelow_def)

lemma length_shuffle_loop: "length (fst (shuffle_loop m x g)) = length x"
  by (induction m arbitrary: x g) (simp_all add: Let_def split_beta)

lemma mset_shuffle_loop: "m < length x \<Longrightarrow> mset (fst (shuffle_loop m x g)) = mset x"
proof (induction m arbitrary: x g)
  case 0
  then show ?case by simp
next
  case (Suc m)
  let ?j = "fst (randbelow (Suc m + 1) g)"
  have j: "?j < length x" using randbelow_less [of "Suc m + 1" g] Suc.prems by simp
  have sw: "mset (x[Suc m := x ! ?j, ?j := x ! Suc m]) = mset x"
    using j Suc.prems by (rule mset_swap)
  have "m < length (x[Suc m := x ! ?j, ?j := x ! Suc m])" using Suc.prems by simp
  from Suc.IH [OF this] sw show ?case by (simp add: Let_def split_beta)
qed

lemma mset_shuffle: "mset (fst (shuffle x g)) = mset x"
proof (cases x)
  case Nil
  then show ?thesis by (simp add: shuffle_def)
next
  case (Cons a as)
  then have "length x - 1 < length x" by simp
  then show ?thesis unfolding shuffle_def by (rule mset_shuffle_loop)
qed

lemma length_shuffle: "length (fst (shuffle x g)) = length x"
  by (simp add: shuffle_def length_shuffle_loop)

lemma slice_to_from: "slice_to xs k @ slice_from xs k = xs"
  by (simp add: slice_to_def slice_from_def)

lemma split_data_parts:
  "fst (fst (split_data data prob g)) @ snd (fst (split_data data prob g)) = fst (shuffle data g)"
  by (simp add: split_data_def split_beta Let_def slice_to_from)

lemma py_int_nonneg: "0 \<le> x \<Longrightarrow> py_int x = \<lfloor>x\<rfloor>"
  by (simp add: py_int_def)

lemma float_of_int_three: "float_of_int 3 = 3"
  using float_of_int_exact [of 3] by simp

lemma float_of_int_four: "float_of_int 4 = 4"
  using float_of_int_exact [of 4] by simp

lemma float_of_int_one: "float_of_int 1 = 1"
  using float_of_int_exact [of 1] by simp

lemma cut_three_quarters: "py_int (float_mul 4 (3 / 4)) = 3"
  using round_double_eval [of "4 * (3 / 4)" 51]
  by (simp add: float_mul_def py_int_def round_half_even_def)

lemma split_data_example:
  "fst (split_data [1::int, 2, 3, 4] (3 / 4) id) = ([3, 4, 2], [1])"
  by (simp add: split_data_def shuffle_def randbelow_def Let_def slice_to_def slice_from_def
      slice_bound_def float_of_int_four cut_three_quarters)

lemma split_data_mset:
  assumes "split_data data prob g = ((train, test), g')"
  shows "mset (train @ test) = mset data"
proof -
  have "train @ test = fst (shuffle data g)"
    using split_data_parts [of data prob g] assms by simp
  then show ?thesis by (simp only: mset_shuffle)
qed

text \<open>
  Claim C1. Whatever the fraction and the random source, the two lists that
  \<open>split_data\<close> returns, put together, are a permutation of the input: their multiset
  union is the multiset of \<open>data\<close>, nothing duplicated and nothing lost.
\<close>

theorem split_data_permutation:
  assumes "split_data data prob g = ((train, test), g')"
  shows "mset (train @ test) = mset data \<and> mset train + mset test = mset data"
  using split_data_mset [OF assms] by simp

theorem split_data_permutation_witness:
  "mset ([3, 4, 2] @ [1]) = mset [1::int, 2, 3, 4] \<and> mset [3, 4, 2] + mset [1] = mset [1::int, 2, 3, 4]"
proof -
  have "split_data [1::int, 2, 3, 4] (3 / 4) id
          = (([3, 4, 2], [1]), snd (split_data [1::int, 2, 3, 4] (3 / 4) id))"
    using split_data_example by (simp add: prod_eq_iff)
  from split_data_permutation [OF this] show ?thesis .
qed

text \<open>
  Claim C2 says that the first list has \<open>\<lfloor>length data * p\<rfloor>\<close> elements. The code cuts
  the rounded float product: for three elements and the double \<open>0.3333333333333333\<close>
  the exact product is just below 1, the float product is \<open>1.0\<close>, and the first list has
  one element where the floor of the exact product is 0.
\<close>

theorem split_data_lengths_counterexample:
  "(0::real) \<le> 6004799503160661 / 18014398509481984
   \<and> (6004799503160661 / 18014398509481984 :: real) \<le> 1
   \<and> fst (split_data [1::int, 2, 3] (6004799503160661 / 18014398509481984) id) = ([3], [2, 1])
   \<and> int (length [3::int])
       \<noteq> \<lfloor>real (length [1::int, 2, 3]) * (6004799503160661 / 18014398509481984)\<rfloor>"
proof -
  have c: "py_int (float_mul 3 (6004799503160661 / 18014398509481984)) = 1"
    using round_double_eval [of "3 * (6004799503160661 / 18014398509481984)" 53]
    by (simp add: float_mul_def py_int_def round_half_even_def)
  have e: "fst (split_data [1::int, 2, 3] (6004799503160661 / 18014398509481984) id)
             = ([3], [2, 1])"
    by (simp add: split_data_def shuffle_def randbelow_def Let_def slice_to_def slice_from_def
        slice_bound_def float_of_int_three c)
  have n: "int (length [3::int])
       \<noteq> \<lfloor>real (length [1::int, 2, 3]) * (6004799503160661 / 18014398509481984)\<rfloor>"
    by simp
  have b: "(0::real) \<le> 6004799503160661 / 18014398509481984"
    "(6004799503160661 / 18014398509481984 :: real) \<le> 1" by simp_all
  from b e n show ?thesis by blast
qed

lemma float_product_cut:
  assumes "0 \<le> p" "p \<le> 1" "n < 2 ^ 53"
  shows "py_int (float_mul (float_of_int (int n)) p) = \<lfloor>float_mul (real n) p\<rfloor>
         \<and> \<lfloor>real n * p\<rfloor> \<le> \<lfloor>float_mul (real n) p\<rfloor>
         \<and> \<lfloor>float_mul (real n) p\<rfloor> \<le> \<lceil>real n * p\<rceil>
         \<and> 0 \<le> \<lfloor>float_mul (real n) p\<rfloor>
         \<and> \<lfloor>float_mul (real n) p\<rfloor> \<le> int n"
proof -
  let ?x = "real n * p"
  have ni: "int n < 2 ^ 53" using assms(3) by (metis of_nat_less_iff of_nat_numeral of_nat_power)
  have fi: "float_of_int (int n) = real n"
    using float_of_int_exact [of "int n"] ni by simp
  have nr: "real n < 2 ^ 53" using assms(3) by (metis of_nat_less_iff of_nat_numeral of_nat_power)
  have x0: "0 \<le> ?x" using assms(1) by simp
  have "?x \<le> real n * 1" using assms(2) by (intro mult_left_mono) simp_all
  then have xn: "?x \<le> real n" by simp
  then have x53: "?x < 2 ^ 53" using nr by linarith
  have bt: "of_int \<lfloor>?x\<rfloor> \<le> round_double ?x \<and> round_double ?x \<le> of_int \<lceil>?x\<rceil>"
    using x0 x53 by (rule round_double_between_ints)
  have r0: "0 \<le> round_double ?x" using x0 by (rule round_double_nonneg)
  have a: "py_int (float_mul (float_of_int (int n)) p) = \<lfloor>float_mul (real n) p\<rfloor>"
    using r0 by (simp add: fi float_mul_def py_int_nonneg)
  have b: "\<lfloor>?x\<rfloor> \<le> \<lfloor>round_double ?x\<rfloor>" using bt by (simp add: le_floor_iff)
  have "of_int \<lfloor>round_double ?x\<rfloor> \<le> round_double ?x" by simp
  then have "real_of_int \<lfloor>round_double ?x\<rfloor> \<le> of_int \<lceil>?x\<rceil>" using bt by linarith
  then have c: "\<lfloor>round_double ?x\<rfloor> \<le> \<lceil>?x\<rceil>" by (simp only: of_int_le_iff)
  have d: "0 \<le> \<lfloor>round_double ?x\<rfloor>" using r0 by simp
  have "\<lceil>?x\<rceil> \<le> int n" using xn by (simp add: ceiling_le_iff)
  with c have e: "\<lfloor>round_double ?x\<rfloor> \<le> int n" by linarith
  from a b c d e show ?thesis by (simp add: float_mul_def)
qed

text \<open>
  Claim C2, as the code has it. For a fraction \<open>p\<close> in \<open>[0, 1]\<close> and a list of fewer than
  \<open>2^53\<close> elements, the first list of \<open>split_data data p\<close> has \<open>int(len(data) * p)\<close>
  elements, the floor of the float product, and the second list has the others. That
  number is at least \<open>\<lfloor>length data * p\<rfloor>\<close> and at most \<open>\<lceil>length data * p\<rceil>\<close>: it is the
  floor of the exact product, or one more when the product rounds up to the next integer.
\<close>

theorem split_data_lengths_rounded:
  assumes "0 \<le> p" "p \<le> 1" "length data < 2 ^ 53"
    and "split_data data p g = ((train, test), g')"
  shows "int (length train) = \<lfloor>float_mul (real (length data)) p\<rfloor>
         \<and> int (length test) = int (length data) - int (length train)
         \<and> \<lfloor>real (length data) * p\<rfloor> \<le> int (length train)
         \<and> int (length train) \<le> \<lceil>real (length data) * p\<rceil>"
proof -
  let ?n = "length data"
  let ?c = "\<lfloor>float_mul (real ?n) p\<rfloor>"
  have fc: "py_int (float_mul (float_of_int (int ?n)) p) = ?c
         \<and> \<lfloor>real ?n * p\<rfloor> \<le> ?c \<and> ?c \<le> \<lceil>real ?n * p\<rceil> \<and> 0 \<le> ?c \<and> ?c \<le> int ?n"
    using assms(1,2,3) by (rule float_product_cut)
  have le: "nat ?c \<le> ?n" using fc by linarith
  then have b: "slice_bound ?n ?c = nat ?c" using fc by (simp add: slice_bound_def min_def)
  have tr: "train = slice_to (fst (shuffle data g)) ?c"
    and te: "test = slice_from (fst (shuffle data g)) ?c"
    using assms(4) fc by (simp_all add: split_data_def split_beta Let_def length_shuffle)
  have l1: "length train = nat ?c" using le by (simp add: tr slice_to_def length_shuffle b)
  have l2: "length test = ?n - nat ?c" by (simp add: te slice_from_def length_shuffle b)
  have i1: "int (length train) = ?c" using fc l1 by linarith
  have i2: "int (length test) = int ?n - int (length train)" using le l1 l2 by linarith
  from i1 i2 fc show ?thesis by simp
qed

theorem split_data_lengths_rounded_witness:
  "(0::real) \<le> 3 / 4 \<and> (3 / 4 :: real) \<le> 1 \<and> length [1::int, 2, 3, 4] < 2 ^ 53
   \<and> int (length [3::int, 4, 2]) = \<lfloor>float_mul (real (length [1::int, 2, 3, 4])) (3 / 4)\<rfloor>
   \<and> int (length [1::int]) = int (length [1::int, 2, 3, 4]) - int (length [3::int, 4, 2])
   \<and> \<lfloor>real (length [1::int, 2, 3, 4]) * (3 / 4)\<rfloor> \<le> int (length [3::int, 4, 2])
   \<and> int (length [3::int, 4, 2]) \<le> \<lceil>real (length [1::int, 2, 3, 4]) * (3 / 4)\<rceil>"
proof -
  have e: "split_data [1::int, 2, 3, 4] (3 / 4) id
             = (([3, 4, 2], [1]), snd (split_data [1::int, 2, 3, 4] (3 / 4) id))"
    using split_data_example by (simp add: prod_eq_iff)
  have a: "(0::real) \<le> 3 / 4" and b: "(3 / 4 :: real) \<le> 1"
    and c: "length [1::int, 2, 3, 4] < 2 ^ 53" by simp_all
  from split_data_lengths_rounded [OF a b c e] a b c show ?thesis by blast
qed

lemma gather_eq:
  "gather xs idxs =
     (if list_all (\<lambda>i. i < length xs) idxs then Inr (map ((!) xs) idxs) else Inl IndexError)"
  by (induction idxs) (simp_all add: getitem_def)

lemma split_data_indices:
  assumes "split_data [0..<n] p g = ((tr, te), g')"
  shows "list_all (\<lambda>i. i < n) tr \<and> list_all (\<lambda>i. i < n) te"
proof -
  have "mset (tr @ te) = mset [0..<n]" using split_data_mset [OF assms] .
  then have "set (tr @ te) = set [0..<n]" by (rule mset_eq_setD)
  then show ?thesis by (auto simp: list_all_iff)
qed

lemma train_test_split_unfold:
  assumes "split_data [0..<length xs] (float_sub (float_of_int 1) test_pct) g = ((tr, te), g')"
  shows "train_test_split xs ys test_pct g =
          ((if list_all (\<lambda>i. i < length ys) tr \<and> list_all (\<lambda>i. i < length ys) te
            then Inr (map ((!) xs) tr, map ((!) xs) te, map ((!) ys) tr, map ((!) ys) te)
            else Inl IndexError), g')"
proof -
  have "list_all (\<lambda>i. i < length xs) tr \<and> list_all (\<lambda>i. i < length xs) te"
    using assms by (rule split_data_indices)
  then show ?thesis
    by (simp add: train_test_split_def assms gather_eq)
qed

lemma zip_map_nth:
  "list_all (\<lambda>i. i < length xs) idxs \<Longrightarrow> length xs = length ys \<Longrightarrow>
   zip (map ((!) xs) idxs) (map ((!) ys) idxs) = map ((!) (zip xs ys)) idxs"
  by (induction idxs) simp_all

lemma train_test_split_by_indices:
  assumes "length xs = length ys"
  shows "\<exists>train_idxs test_idxs g'.
           train_test_split xs ys test_pct g =
             (Inr (map ((!) xs) train_idxs, map ((!) xs) test_idxs,
                   map ((!) ys) train_idxs, map ((!) ys) test_idxs), g')
           \<and> mset (train_idxs @ test_idxs) = mset [0..<length xs]
           \<and> length (map ((!) xs) train_idxs) = length (map ((!) ys) train_idxs)
           \<and> length (map ((!) xs) test_idxs) = length (map ((!) ys) test_idxs)
           \<and> mset (zip (map ((!) xs) train_idxs) (map ((!) ys) train_idxs)
                   @ zip (map ((!) xs) test_idxs) (map ((!) ys) test_idxs)) = mset (zip xs ys)"
proof -
  obtain tr te g' where sp: "split_data [0..<length xs] (float_sub (float_of_int 1) test_pct) g = ((tr, te), g')"
    by (metis prod.exhaust)
  have ix: "list_all (\<lambda>i. i < length xs) tr" "list_all (\<lambda>i. i < length xs) te"
    using split_data_indices [OF sp] by simp_all
  have perm: "mset (tr @ te) = mset [0..<length xs]"
    using split_data_mset [OF sp] .
  have res: "train_test_split xs ys test_pct g =
      (Inr (map ((!) xs) tr, map ((!) xs) te, map ((!) ys) tr, map ((!) ys) te), g')"
    using ix assms by (simp add: train_test_split_unfold [OF sp])
  have "zip (map ((!) xs) tr) (map ((!) ys) tr) @ zip (map ((!) xs) te) (map ((!) ys) te)
        = map ((!) (zip xs ys)) (tr @ te)"
    using ix assms by (simp add: zip_map_nth)
  then have "mset (zip (map ((!) xs) tr) (map ((!) ys) tr) @ zip (map ((!) xs) te) (map ((!) ys) te))
        = image_mset ((!) (zip xs ys)) (mset [0..<length xs])"
    using perm by (metis mset_map)
  also have "\<dots> = mset (map ((!) (zip xs ys)) [0..<length (zip xs ys)])"
    using assms by simp
  also have "\<dots> = mset (zip xs ys)" by (simp only: map_nth)
  finally have z: "mset (zip (map ((!) xs) tr) (map ((!) ys) tr) @ zip (map ((!) xs) te) (map ((!) ys) te))
        = mset (zip xs ys)" .
  from res perm z show ?thesis by (intro exI [of _ tr] exI [of _ te] exI [of _ g']) simp
qed

text \<open>
  Claim C3. For inputs and labels of equal length \<open>train_test_split\<close> returns four lists
  with \<open>length x_train = length y_train\<close> and \<open>length x_test = length y_test\<close>. There
  are index lists \<open>train_idxs\<close> and \<open>test_idxs\<close>, together a permutation of
  \<open>0, ..., length xs - 1\<close>, such that position \<open>k\<close> of \<open>x_train\<close> and of \<open>y_train\<close>
  holds \<open>xs\<close> and \<open>ys\<close> at the same index \<open>train_idxs ! k\<close>, and likewise for the test
  lists: every original pair \<open>(xs[i], ys[i])\<close> goes to exactly one side, still paired.
\<close>

theorem train_test_split_paired:
  assumes "length xs = length ys"
  shows "\<exists>x_train x_test y_train y_test g'.
           train_test_split xs ys test_pct g = (Inr (x_train, x_test, y_train, y_test), g')
           \<and> length x_train = length y_train
           \<and> length x_test = length y_test
           \<and> (\<exists>train_idxs test_idxs.
                 mset (train_idxs @ test_idxs) = mset [0..<length xs]
                 \<and> x_train = map ((!) xs) train_idxs \<and> y_train = map ((!) ys) train_idxs
                 \<and> x_test = map ((!) xs) test_idxs \<and> y_test = map ((!) ys) test_idxs)
           \<and> mset (zip x_train y_train @ zip x_test y_test) = mset (zip xs ys)"
proof -
  from train_test_split_by_indices [OF assms, of test_pct g]
  obtain tr te g' where r:
    "train_test_split xs ys test_pct g =
       (Inr (map ((!) xs) tr, map ((!) xs) te, map ((!) ys) tr, map ((!) ys) te), g')"
    and p: "mset (tr @ te) = mset [0..<length xs]"
    and z: "mset (zip (map ((!) xs) tr) (map ((!) ys) tr)
                   @ zip (map ((!) xs) te) (map ((!) ys) te)) = mset (zip xs ys)"
    by blast
  have l1: "length (map ((!) xs) tr) = length (map ((!) ys) tr)" by simp
  have l2: "length (map ((!) xs) te) = length (map ((!) ys) te)" by simp
  from r p z l1 l2 show ?thesis by blast
qed

theorem train_test_split_paired_witness:
  "length [1::int, 2, 3, 4] = length [10::int, 20, 30, 40]
   \<and> (\<exists>x_train x_test y_train y_test g'.
         train_test_split [1::int, 2, 3, 4] [10::int, 20, 30, 40] (1 / 4) id
           = (Inr (x_train, x_test, y_train, y_test), g')
         \<and> length x_train = length y_train
         \<and> length x_test = length y_test
         \<and> mset (zip x_train y_train @ zip x_test y_test)
             = mset (zip [1, 2, 3, 4] [10, 20, 30, 40]))"
proof -
  have l: "length [1::int, 2, 3, 4] = length [10::int, 20, 30, 40]" by simp
  from train_test_split_paired [OF l, of "1 / 4" id] l show ?thesis by blast
qed

text \<open>
  Claim C4 says that lists of different lengths make \<open>train_test_split\<close> fail. The code
  has no check of the lengths: with one input and two labels it returns a result.
\<close>

theorem train_test_split_mismatch_counterexample:
  "length [1::int] \<noteq> length [10::int, 20]
   \<and> fst (train_test_split [1::int] [10::int, 20] (1 / 4) id) = Inr ([], [1], [], [10])"
proof -
  have s: "float_sub 1 (1 / 4) = 3 / 4"
    using round_double_eval [of "1 - 1 / 4" 53] by (simp add: float_sub_def round_half_even_def)
  have r: "round_double (3 / 4) = 3 / 4"
    using round_double_eval [of "3 / 4" 53] by (simp add: round_half_even_def)
  have c: "py_int (float_mul 1 (3 / 4)) = 0"
    by (simp add: float_mul_def py_int_def r)
  show ?thesis
    by (simp add: train_test_split_def split_data_def shuffle_def randbelow_def Let_def
        slice_to_def slice_from_def slice_bound_def getitem_def float_of_int_one s c)
qed

text \<open>
  Claim C4, as the code has it. The indices come from \<open>xs\<close> alone. When \<open>ys\<close> is the
  shorter list, the last index of \<open>xs\<close> is out of range for \<open>ys\<close> and the call raises
  \<^verbatim>\<open>IndexError\<close>; when \<open>ys\<close> is the longer list the call returns, and its result is
  the one for \<open>xs\<close> and the first \<open>length xs\<close> labels.
\<close>

theorem train_test_split_mismatch:
  "(length ys < length xs \<longrightarrow> fst (train_test_split xs ys test_pct g) = Inl IndexError)
   \<and> (length xs < length ys \<longrightarrow>
        fst (train_test_split xs ys test_pct g)
          = fst (train_test_split xs (take (length xs) ys) test_pct g)
        \<and> (\<exists>r. fst (train_test_split xs ys test_pct g) = Inr r))"
proof -
  obtain tr te g' where sp: "split_data [0..<length xs] (float_sub (float_of_int 1) test_pct) g = ((tr, te), g')"
    by (metis prod.exhaust)
  have ix: "list_all (\<lambda>i. i < length xs) tr" "list_all (\<lambda>i. i < length xs) te"
    using split_data_indices [OF sp] by simp_all
  have perm: "mset (tr @ te) = mset [0..<length xs]"
    using split_data_mset [OF sp] .
  then have st: "set tr \<union> set te = {0..<length xs}"
    using mset_eq_setD [OF perm] by simp
  have short: "fst (train_test_split xs ys test_pct g) = Inl IndexError"
    if "length ys < length xs"
  proof -
    have "length xs - 1 \<in> set tr \<union> set te" using that st by simp
    moreover have "\<not> length xs - 1 < length ys" using that by simp
    ultimately have "\<not> (list_all (\<lambda>i. i < length ys) tr \<and> list_all (\<lambda>i. i < length ys) te)"
      by (auto simp: list_all_iff)
    then show ?thesis by (simp add: train_test_split_unfold [OF sp])
  qed
  have long: "fst (train_test_split xs ys test_pct g)
          = fst (train_test_split xs (take (length xs) ys) test_pct g)
        \<and> (\<exists>r. fst (train_test_split xs ys test_pct g) = Inr r)"
    if "length xs < length ys"
  proof -
    have a: "list_all (\<lambda>i. i < length ys) tr" "list_all (\<lambda>i. i < length ys) te"
      using ix that by (auto simp: list_all_iff)
    have b: "list_all (\<lambda>i. i < length (take (length xs) ys)) tr"
      "list_all (\<lambda>i. i < length (take (length xs) ys)) te"
      using ix that by (auto simp: list_all_iff)
    have c: "map ((!) (take (length xs) ys)) tr = map ((!) ys) tr"
      "map ((!) (take (length xs) ys)) te = map ((!) ys) te"
      using ix by (auto simp: list_all_iff)
    show ?thesis
      using a b c
      by (simp add: train_test_split_unfold [OF sp, of ys]
          train_test_split_unfold [OF sp, of "take (length xs) ys"])
  qed
  from short long show ?thesis by blast
qed

theorem train_test_split_mismatch_witness:
  "length [10::int] < length [1::int, 2]
   \<and> fst (train_test_split [1::int, 2] [10::int] (1 / 4) id) = Inl IndexError
   \<and> length [1::int] < length [10::int, 20]
   \<and> (\<exists>r. fst (train_test_split [1::int] [10::int, 20] (1 / 4) id) = Inr r)"
proof -
  have a: "length [10::int] < length [1::int, 2]" by simp
  have b: "length [1::int] < length [10::int, 20]" by simp
  from a b
    train_test_split_mismatch [where xs = "[1::int, 2]" and ys = "[10::int]"
      and test_pct = "1 / 4" and g = id]
    train_test_split_mismatch [where xs = "[1::int]" and ys = "[10::int, 20]"
      and test_pct = "1 / 4" and g = id]
  show ?thesis by blast
qed

section \<open>The caller's list\<close>

lemma shuffle_loop_st_eq:
  "r < length s \<Longrightarrow>
   shuffle_loop_st m r s g =
     (s[r := fst (shuffle_loop m (s ! r) g)], snd (shuffle_loop m (s ! r) g))"
proof (induction m arbitrary: s g)
  case 0
  then show ?case by simp
next
  case (Suc m)
  let ?j = "fst (randbelow (Suc (Suc m)) g)"
  let ?s' = "setitem_st r ?j (s ! r ! Suc m) (setitem_st r (Suc m) (s ! r ! ?j) s)"
  have len: "r < length ?s'" using Suc.prems by (simp add: setitem_st_def)
  have cell: "?s' ! r = (s ! r)[Suc m := s ! r ! ?j, ?j := s ! r ! Suc m]"
    using Suc.prems by (simp add: setitem_st_def)
  have other: "?s'[r := v] = s[r := v]" for v
    by (simp add: setitem_st_def)
  show ?case
    using Suc.IH [OF len, of "snd (randbelow (Suc (Suc m)) g)"]
    by (simp add: Let_def split_beta cell other)
qed

lemma shuffle_st_eq:
  "r < length s \<Longrightarrow>
   shuffle_st r s g = (s[r := fst (shuffle (s ! r) g)], snd (shuffle (s ! r) g))"
  by (simp add: shuffle_st_def shuffle_def shuffle_loop_st_eq)

lemma split_data_st_eq:
  "split_data_st data prob s g =
     ((Suc (length s), Suc (Suc (length s))),
      s @ [fst (shuffle (s ! data) g),
           fst (fst (split_data (s ! data) prob g)),
           snd (fst (split_data (s ! data) prob g))],
      snd (split_data (s ! data) prob g))"
  by (simp add: split_data_st_def alloc_def shuffle_st_eq split_data_def split_beta Let_def
      nth_append)

text \<open>
  Claim C9. \<open>split_data\<close> leaves the caller's list as it was: the shuffle works on the
  copy, a new object, so after the call the store holds at \<open>data\<close>, and at every
  reference that existed before, the same list as before. The two returned references
  hold what \<open>split_data\<close> computes on values.
\<close>

theorem split_data_keeps_input:
  assumes "data < length s" "split_data_st data prob s g = ((train, test), s', g')"
  shows "s' ! data = s ! data
         \<and> take (length s) s' = s
         \<and> s' ! train = fst (fst (split_data (s ! data) prob g))
         \<and> s' ! test = snd (fst (split_data (s ! data) prob g))"
  using assms by (auto simp: split_data_st_eq nth_append)

theorem split_data_keeps_input_witness:
  "(1::nat) < length [[7::int], [1, 2, 3, 4]]
   \<and> [[7::int], [1, 2, 3, 4], [3, 4, 2, 1], [3, 4, 2], [1]] ! 1 = [[7], [1, 2, 3, 4]] ! 1
   \<and> take (length [[7::int], [1, 2, 3, 4]]) [[7::int], [1, 2, 3, 4], [3, 4, 2, 1], [3, 4, 2], [1]]
       = [[7], [1, 2, 3, 4]]"
proof -
  have e: "split_data_st 1 (3 / 4) [[7::int], [1, 2, 3, 4]] id
      = ((3, 4), [[7], [1, 2, 3, 4], [3, 4, 2, 1], [3, 4, 2], [1]],
         snd (snd (split_data_st 1 (3 / 4) [[7::int], [1, 2, 3, 4]] id)))"
    by (simp add: split_data_st_def alloc_def shuffle_st_def setitem_st_def randbelow_def
        Let_def slice_to_def slice_from_def slice_bound_def float_of_int_four
        cut_three_quarters)
  have l: "(1::nat) < length [[7::int], [1, 2, 3, 4]]" by simp
  from split_data_keeps_input [OF l e] l show ?thesis by blast
qed

end
